theory Spec2Isabelle
  imports Main
begin

section \<open>JavaScript values and the object store\<close>

text \<open>
  The program is \<^verbatim>\<open>src/index.js\<close>: the class \<^verbatim>\<open>StatefulEmitter\<close> and the module-private
  table \<^verbatim>\<open>PrivateStates\<close>. Its data are JavaScript values. A value is a primitive or a
  reference to an object of the store; \<^verbatim>\<open>===\<close> compares references by address. Numbers
  are the integers and \<^verbatim>\<open>NaN\<close> (the one number that differs from itself under \<^verbatim>\<open>!==\<close>);
  fractions and infinities are left out.
\<close>

datatype val = Undefined | Null | Bool bool | Num int | NaN | Str string | Ref nat

text \<open>
  An object is the list of its own enumerable data properties, each name once. The code
  looks properties up by name and counts them; it never depends on their order. The
  store is the list of all objects allocated so far; the address of an object is its
  position, so allocation appends and every earlier address keeps its object.
\<close>

type_synonym obj = "(string \<times> val) list"
type_synonym heap = "obj list"

datatype error = TypeError

datatype completion = Normal | Throw error

definition fetch :: "heap \<Rightarrow> nat \<Rightarrow> obj" where
  \<comment> \<open>The object at an address. JavaScript has no dangling reference; an address that was
      never allocated reads as an object without properties.\<close>
  "fetch h a = (if a < length h then h ! a else [])"

definition new_object :: "heap \<Rightarrow> nat \<times> heap" where
  \<comment> \<open>The object literal \<^verbatim>\<open>{}\<close>.\<close>
  "new_object h = (length h, h @ [[]])"

definition truthy :: "val \<Rightarrow> bool" where
  \<comment> \<open>ToBoolean, as used by \<^verbatim>\<open>?:\<close> and \<^verbatim>\<open>||\<close>.\<close>
  "truthy v = (case v of
       Undefined \<Rightarrow> False
     | Null \<Rightarrow> False
     | Bool b \<Rightarrow> b
     | Num n \<Rightarrow> n \<noteq> 0
     | NaN \<Rightarrow> False
     | Str s \<Rightarrow> s \<noteq> []
     | Ref a \<Rightarrow> True)"

definition nullish :: "val \<Rightarrow> bool" where
  "nullish v = (v = Undefined \<or> v = Null)"

definition strict_neq :: "val \<Rightarrow> val \<Rightarrow> bool" where
  \<comment> \<open>\<^verbatim>\<open>n !== o\<close>: no coercion; \<^verbatim>\<open>NaN\<close> differs from everything, itself included.\<close>
  "strict_neq n o' = (n \<noteq> o' \<or> n = NaN)"

definition digit_char :: "nat \<Rightarrow> char" where
  "digit_char d = char_of (48 + d)"

fun string_of_nat :: "nat \<Rightarrow> string" where
  "string_of_nat n =
     (if n < 10 then [digit_char n] else string_of_nat (n div 10) @ [digit_char (n mod 10)])"

declare string_of_nat.simps [simp del]

fun put :: "string \<Rightarrow> val \<Rightarrow> obj \<Rightarrow> obj" where
  \<comment> \<open>The assignment \<^verbatim>\<open>target[key] = v\<close> on a plain object: an existing property keeps its
      place, a new one goes last.\<close>
  "put k v [] = [(k, v)]"
| "put k v (p # ps) = (if fst p = k then (k, v) # ps else p # put k v ps)"

fun own_entries :: "heap \<Rightarrow> val \<Rightarrow> obj" where
  \<comment> \<open>The own enumerable properties of ToObject(v): those of the object for a reference,
      the indexed characters for a string, none for the other primitives.\<close>
  "own_entries h (Ref a) = fetch h a"
| "own_entries h (Str s) = map (\<lambda>i. (string_of_nat i, Str [s ! i])) [0..<length s]"
| "own_entries h v = []"

definition put_all :: "obj \<Rightarrow> obj \<Rightarrow> obj" where
  \<comment> \<open>\<^verbatim>\<open>target[key] = v\<close> for every property of a source, in the order of the source.\<close>
  "put_all ob es = foldl (\<lambda>ob' kv. put (fst kv) (snd kv) ob') ob es"

definition assign_from :: "nat \<Rightarrow> heap \<Rightarrow> val \<Rightarrow> heap" where
  \<comment> \<open>One source of \<^verbatim>\<open>Object.assign\<close>: \<^verbatim>\<open>undefined\<close> and \<^verbatim>\<open>null\<close> are skipped, every own
      enumerable property of another source is assigned to the target.\<close>
  "assign_from t h src =
     (if nullish src then h else h[t := put_all (fetch h t) (own_entries h src)])"

definition Object_assign :: "nat \<Rightarrow> val list \<Rightarrow> heap \<Rightarrow> heap" where
  \<comment> \<open>\<^verbatim>\<open>Object.assign(target, ...sources)\<close>, sources from left to right; the target is
      returned by the call and is the address \<open>t\<close> here.\<close>
  "Object_assign t srcs h = foldl (assign_from t) h srcs"

definition Object_keys :: "heap \<Rightarrow> val \<Rightarrow> error + string list" where
  \<comment> \<open>\<^verbatim>\<open>Object.keys(v)\<close> raises a TypeError on \<^verbatim>\<open>undefined\<close> and \<^verbatim>\<open>null\<close>.\<close>
  "Object_keys h v = (if nullish v then Inl TypeError else Inr (map fst (own_entries h v)))"

definition for_in :: "'a list \<Rightarrow> string list" where
  \<comment> \<open>The property names \<^verbatim>\<open>for (const key in arr)\<close> visits on an array: its indices, as
      strings, in ascending order. The elements of the array are not looked at.\<close>
  "for_in arr = map string_of_nat [0..<length arr]"

definition get_prop :: "heap \<Rightarrow> val \<Rightarrow> string \<Rightarrow> error + val" where
  \<comment> \<open>The property read \<^verbatim>\<open>v[key]\<close>: a TypeError on \<^verbatim>\<open>undefined\<close> and \<^verbatim>\<open>null\<close>, the own data
      property where there is one, \<^verbatim>\<open>undefined\<close> otherwise. Methods inherited from the
      built-in prototypes are not data and are left out.\<close>
  "get_prop h v key = (case v of
       Undefined \<Rightarrow> Inl TypeError
     | Null \<Rightarrow> Inl TypeError
     | Ref a \<Rightarrow> Inr (case map_of (fetch h a) key of None \<Rightarrow> Undefined | Some x \<Rightarrow> x)
     | Str s \<Rightarrow> Inr (case map_of (own_entries h (Str s)) key of
                       Some x \<Rightarrow> x
                     | None \<Rightarrow> if key = ''length'' then Num (int (length s)) else Undefined)
     | _ \<Rightarrow> Inr Undefined)"

section \<open>The module state\<close>

text \<open>
  An instance of \<^verbatim>\<open>StatefulEmitter\<close> holds its \<^verbatim>\<open>_id\<close> and, inherited from \<^verbatim>\<open>EventEmitter\<close>,
  its registered listeners: pairs of an event name and a listener, in registration order.
  A listener is known by a number; what a listener does is code of the caller. The
  definitions of this section and the next record each invocation and go on; those of
  the section on the methods with the listeners run take what a listener does as a
  parameter.
\<close>

record emitter =
  ident :: nat
  listeners :: "(string \<times> nat) list"

record call =
  receiver :: nat
  listener :: nat
  event :: string
  payload :: "val list"

text \<open>
  The whole state: the store, \<^verbatim>\<open>PrivateStates.id\<close>, \<^verbatim>\<open>PrivateStates.states\<close>, the instances
  constructed so far (an instance is referred to by its position) and the listener
  invocations made so far.
\<close>

record world =
  heap :: heap
  ps_id :: nat
  ps_states :: "nat \<rightharpoonup> val"
  emitters :: "emitter list"
  calls :: "call list"

definition init_world :: world where
  \<comment> \<open>The module just loaded: \<^verbatim>\<open>PrivateStates = { id: 0, states: {} }\<close>.\<close>
  "init_world = \<lparr>heap = [], ps_id = 0, ps_states = Map.empty, emitters = [], calls = []\<rparr>"

definition stored :: "world \<Rightarrow> nat \<Rightarrow> val" where
  \<comment> \<open>\<^verbatim>\<open>PrivateStates.states[this._id]\<close>; a missing key reads \<^verbatim>\<open>undefined\<close>.\<close>
  "stored w this =
     (case ps_states w (ident (emitters w ! this)) of None \<Rightarrow> Undefined | Some s \<Rightarrow> s)"

definition on :: "nat \<Rightarrow> string \<Rightarrow> nat \<Rightarrow> world \<Rightarrow> world" where
  \<comment> \<open>Modelled from the spec: \<^verbatim>\<open>EventEmitter\<close> is the Node.js library class, not code of the
      repository. Section 6 of the spec: collaborators register for a named channel with
      a standard add-listener interface.\<close>
  "on this name l w =
     w\<lparr>emitters := (emitters w)[this := (emitters w ! this)
          \<lparr>listeners := listeners (emitters w ! this) @ [(name, l)]\<rparr>]\<rparr>"

definition deliveries :: "nat \<Rightarrow> string \<Rightarrow> val list \<Rightarrow> world \<Rightarrow> call list" where
  \<comment> \<open>Modelled from the spec: what \<^verbatim>\<open>EventEmitter.emit\<close>, the Node.js library method,
      delivers. One invocation for every listener registered on the instance under the
      name, in registration order, each with the same arguments.\<close>
  "deliveries this name args w =
     map (\<lambda>nl. \<lparr>receiver = this, listener = snd nl, event = name, payload = args\<rparr>)
       (filter (\<lambda>nl. fst nl = name) (listeners (emitters w ! this)))"

definition emit :: "nat \<Rightarrow> string \<Rightarrow> val list \<Rightarrow> world \<Rightarrow> world" where
  \<comment> \<open>Modelled from the spec: \<^verbatim>\<open>EventEmitter.emit\<close> is the Node.js library method. Section
      4.1 of the spec: the notification is raised synchronously, carrying its payload, to
      all current subscribers of the channel, in subscription order.\<close>
  "emit this name args w = w\<lparr>calls := calls w @ deliveries this name args w\<rparr>"

section \<open>StatefulEmitter\<close>

definition constructor :: "val \<Rightarrow> world \<Rightarrow> nat \<times> world" where
  \<comment> \<open>\<^verbatim>\<open>this._id = ++PrivateStates.id; PrivateStates.states[this._id] = this.initialState\<close>.
      The parameter is what \<^verbatim>\<open>this.initialState\<close> evaluates to: the value of the subclass's
      getter, and \<^verbatim>\<open>undefined\<close> for the base class, whose own getter is named
      \<^verbatim>\<open>initial_state\<close> and is never read.\<close>
  "constructor initialState w =
     (let this = length (emitters w);
          w1 = w\<lparr>emitters := emitters w @ [\<lparr>ident = 0, listeners = []\<rparr>]\<rparr>;
          w2 = w1\<lparr>ps_id := ps_id w1 + 1\<rparr>;
          w3 = w2\<lparr>emitters := (emitters w2)[this := (emitters w2 ! this)\<lparr>ident := ps_id w2\<rparr>]\<rparr>;
          w4 = w3\<lparr>ps_states := (ps_states w3)(ident (emitters w3 ! this) \<mapsto> initialState)\<rparr>
      in (this, w4))"

definition state :: "nat \<Rightarrow> world \<Rightarrow> val \<times> world" where
  \<comment> \<open>\<^verbatim>\<open>const s = PrivateStates.states[this._id]; return s ? Object.assign({}, s) : s;\<close>\<close>
  "state this w =
     (let s = stored w this
      in if truthy s
         then (let (t, h1) = new_object (heap w)
               in (Ref t, w\<lparr>heap := Object_assign t [s] h1\<rparr>))
         else (s, w))"

fun diff_loop :: "nat \<Rightarrow> val \<Rightarrow> val \<Rightarrow> string list \<Rightarrow> world \<Rightarrow> completion \<times> world" where
  \<comment> \<open>The body of the \<^verbatim>\<open>for\<close> loop of \<^verbatim>\<open>setState\<close>, once for every name the loop visits.\<close>
  "diff_loop this oldState newState [] w = (Normal, w)"
| "diff_loop this oldState newState (key # keys) w =
     (case get_prop (heap w) oldState key of
        Inl e \<Rightarrow> (Throw e, w)
      | Inr o' \<Rightarrow>
          (case get_prop (heap w) newState key of
             Inl e \<Rightarrow> (Throw e, w)
           | Inr n \<Rightarrow>
               diff_loop this oldState newState keys
                 (if strict_neq n o' then emit this ''change'' [n, o'] w else w)))"

definition setState_emit :: "nat \<Rightarrow> val \<Rightarrow> world \<Rightarrow> (val \<times> val) \<times> world" where
  \<comment> \<open>\<^verbatim>\<open>setState\<close> up to and including \<^verbatim>\<open>this.emit("statechange", newState, oldState)\<close>;
      the result carries the two local constants \<^verbatim>\<open>oldState\<close> and \<^verbatim>\<open>newState\<close>. In
      \<^verbatim>\<open>Object.assign({}, oldState || {}, value)\<close> the target literal is allocated first, then
      the second literal when \<^verbatim>\<open>oldState\<close> is falsy.\<close>
  "setState_emit this value w =
     (let oldState = stored w this;
          (t, h1) = new_object (heap w);
          (src, h2) = (if truthy oldState then (oldState, h1)
                       else (let (e, h') = new_object h1 in (Ref e, h')));
          newState = Ref t;
          w1 = w\<lparr>heap := Object_assign t [src, value] h2\<rparr>;
          w2 = w1\<lparr>ps_states := (ps_states w1)(ident (emitters w1 ! this) \<mapsto> newState)\<rparr>;
          w3 = emit this ''statechange'' [newState, oldState] w2
      in ((oldState, newState), w3))"

definition setState_diff :: "nat \<Rightarrow> val \<Rightarrow> val \<times> val \<Rightarrow> world \<Rightarrow> completion \<times> world" where
  \<comment> \<open>The rest of \<^verbatim>\<open>setState\<close>: \<^verbatim>\<open>for (const key in Object.keys(value)) { ... }\<close>.\<close>
  "setState_diff this value locals w =
     (case Object_keys (heap w) value of
        Inl e \<Rightarrow> (Throw e, w)
      | Inr ks \<Rightarrow> diff_loop this (fst locals) (snd locals) (for_in ks) w)"

definition setState :: "nat \<Rightarrow> val \<Rightarrow> world \<Rightarrow> completion \<times> world" where
  "setState this value w =
     (let (locals, w3) = setState_emit this value w
      in setState_diff this value locals w3)"

section \<open>Notions used to state the properties\<close>

definition val_ok :: "heap \<Rightarrow> val \<Rightarrow> bool" where
  \<comment> \<open>A reference refers to an allocated object.\<close>
  "val_ok h v = (case v of Ref a \<Rightarrow> a < length h | _ \<Rightarrow> True)"

definition wf_heap :: "heap \<Rightarrow> bool" where
  \<comment> \<open>No object has two properties of the same name.\<close>
  "wf_heap h = list_all (\<lambda>ob. distinct (map fst ob)) h"

definition wf_world :: "world \<Rightarrow> bool" where
  \<comment> \<open>What holds of every state the module can be in: the instances have pairwise different
      identities, all of them issued already, and every stored snapshot that is a
      reference refers to an allocated object.\<close>
  "wf_world w =
     (wf_heap (heap w) \<and>
      distinct (map ident (emitters w)) \<and>
      list_all (\<lambda>e. 0 < ident e \<and> ident e \<le> ps_id w) (emitters w) \<and>
      list_all (\<lambda>e. case ps_states w (ident e) of None \<Rightarrow> True | Some s \<Rightarrow> val_ok (heap w) s)
        (emitters w))"

inductive reachable :: "world \<Rightarrow> bool" where
  \<comment> \<open>The states a program can bring the module to: instances are constructed, updated,
      read and subscribed to, and the code around the module allocates objects and
      assigns to the objects it holds.\<close>
  loaded: "reachable init_world"
| constructed: "reachable w \<Longrightarrow> val_ok (heap w) i \<Longrightarrow> reachable (snd (constructor i w))"
| updated:
    "reachable w \<Longrightarrow> this < length (emitters w) \<Longrightarrow> val_ok (heap w) v \<Longrightarrow>
     reachable (snd (setState this v w))"
| was_read: "reachable w \<Longrightarrow> this < length (emitters w) \<Longrightarrow> reachable (snd (state this w))"
| subscribed: "reachable w \<Longrightarrow> reachable (on this name l w)"
| allocated: "reachable w \<Longrightarrow> distinct (map fst ob) \<Longrightarrow> reachable (w\<lparr>heap := heap w @ [ob]\<rparr>)"
| assigned:
    "reachable w \<Longrightarrow> distinct (map fst ob) \<Longrightarrow>
     reachable (w\<lparr>heap := (heap w)[a := ob]\<rparr>)"

definition merged :: "heap \<Rightarrow> val \<Rightarrow> val \<Rightarrow> obj" where
  \<comment> \<open>The merged snapshot of the spec: all fields of the old snapshot, then every field of
      the update written over them.\<close>
  "merged h old v = put_all (put_all [] (own_entries h old)) (own_entries h v)"

definition prop_value :: "heap \<Rightarrow> val \<Rightarrow> string \<Rightarrow> val" where
  \<comment> \<open>The value of \<^verbatim>\<open>v[key]\<close> where the read does not raise.\<close>
  "prop_value h v key = (case get_prop h v key of Inl e \<Rightarrow> Undefined | Inr x \<Rightarrow> x)"

definition change_at :: "nat \<Rightarrow> val \<Rightarrow> val \<Rightarrow> world \<Rightarrow> string \<Rightarrow> call list" where
  \<comment> \<open>The invocations one round of the loop of \<^verbatim>\<open>setState\<close> makes for the name it visits.\<close>
  "change_at this old new w key =
     (if strict_neq (prop_value (heap w) new key) (prop_value (heap w) old key)
      then deliveries this ''change'' [prop_value (heap w) new key, prop_value (heap w) old key] w
      else [])"

definition changes :: "nat \<Rightarrow> val \<Rightarrow> val \<Rightarrow> string list \<Rightarrow> world \<Rightarrow> call list" where
  "changes this old new keys w = concat (map (change_at this old new w) keys)"

definition throws :: "val \<Rightarrow> val \<Rightarrow> heap \<Rightarrow> bool" where
  \<comment> \<open>When the loop of \<^verbatim>\<open>setState\<close> raises: \<^verbatim>\<open>Object.keys\<close> on \<^verbatim>\<open>undefined\<close> or \<^verbatim>\<open>null\<close>, or
      a first round that reads a property of an \<^verbatim>\<open>oldState\<close> that is \<^verbatim>\<open>undefined\<close> or \<^verbatim>\<open>null\<close>.\<close>
  "throws old v h = (nullish v \<or> (own_entries h v \<noteq> [] \<and> nullish old))"

definition subscribers :: "world \<Rightarrow> nat \<Rightarrow> string \<Rightarrow> nat list" where
  \<comment> \<open>The listeners registered on an instance under a name, in registration order.\<close>
  "subscribers w this name =
     map snd (filter (\<lambda>nl. fst nl = name) (listeners (emitters w ! this)))"

definition nat_of_string :: "string \<Rightarrow> nat" where
  \<comment> \<open>Reads a decimal numeral; the inverse of \<open>string_of_nat\<close>.\<close>
  "nat_of_string s = foldl (\<lambda>n c. 10 * n + (of_char c - 48)) 0 s"

text \<open>
  Three states to run the methods on, each built from the freshly loaded module by the
  operations above. In \<open>world_ab\<close> the store holds \<^verbatim>\<open>{a: 1, b: 2}\<close>, \<^verbatim>\<open>{b: 3}\<close> and \<^verbatim>\<open>{b: 2}\<close>;
  one instance has the first as its initial state, listener 7 on \<^verbatim>\<open>statechange\<close> and
  listener 8 on \<^verbatim>\<open>change\<close>. In \<open>world_base\<close> the store holds \<^verbatim>\<open>{a: 1}\<close> and the one instance
  is of the base class, which has no initial state. In \<open>world_two\<close> two instances have the
  initial states \<^verbatim>\<open>{a: 1}\<close> and \<^verbatim>\<open>{x: 9}\<close> and a listener each on both channels; \<^verbatim>\<open>{a: 2}\<close>
  is there for an update.
\<close>

definition world_ab :: world where
  "world_ab =
     (let w0 = init_world\<lparr>heap := [[(''a'', Num 1), (''b'', Num 2)], [(''b'', Num 3)],
                                    [(''b'', Num 2)]]\<rparr>;
          (this, w1) = constructor (Ref 0) w0
      in on this ''change'' 8 (on this ''statechange'' 7 w1))"

definition world_base :: world where
  "world_base =
     (let w0 = init_world\<lparr>heap := [[(''a'', Num 1)]]\<rparr>;
          (this, w1) = constructor Undefined w0
      in on this ''statechange'' 7 w1)"

definition world_two :: world where
  "world_two =
     (let w0 = init_world\<lparr>heap := [[(''a'', Num 1)], [(''x'', Num 9)], [(''a'', Num 2)]]\<rparr>;
          (A, w1) = constructor (Ref 0) w0;
          (B, w2) = constructor (Ref 1) w1
      in on B ''change'' 4 (on B ''statechange'' 3 (on A ''change'' 2 (on A ''statechange'' 1 w2))))"

section \<open>The methods with the listeners run\<close>

text \<open>
  The definitions above record that a listener is invoked and treat every property
  name alike. Two things the code does are not in them. The listeners run inside
  \<^verbatim>\<open>emit\<close>, synchronously, holding the object that was just stored, and whatever they do has
  happened when \<^verbatim>\<open>setState\<close> goes on; and the assignment \<^verbatim>\<open>Object.assign\<close> performs for a
  source property named \<^verbatim>\<open>__proto__\<close> reaches the accessor of \<^verbatim>\<open>Object.prototype\<close>: it sets the
  prototype of the target and adds no property. The definitions of this section follow
  the same source lines with both in place. What the listeners do is a parameter: a
  function from the invocation and the state to a completion and a state.
\<close>

datatype proto = ObjectPrototype | NoPrototype | Object nat

type_synonym protos = "nat \<Rightarrow> proto"

text \<open>
  The state is the state of before and, for every address, the prototype of the object
  there: \<^verbatim>\<open>Object.prototype\<close>, \<^verbatim>\<open>null\<close> or another object of the store.
\<close>

record machine =
  base :: world
  protos :: protos

type_synonym handler = "call \<Rightarrow> machine \<Rightarrow> completion \<times> machine"

fun ancestors :: "protos \<Rightarrow> nat \<Rightarrow> proto \<Rightarrow> nat list" where
  \<comment> \<open>The objects of a prototype chain, nearest first. JavaScript refuses to close a
      prototype chain into a cycle, so a chain passes through an object once at most and
      as many steps as there are objects reach its end.\<close>
  "ancestors P n ObjectPrototype = []"
| "ancestors P n NoPrototype = []"
| "ancestors P 0 (Object a) = []"
| "ancestors P (Suc n) (Object a) = a # ancestors P n (P a)"

fun chain_end :: "protos \<Rightarrow> nat \<Rightarrow> proto \<Rightarrow> proto" where
  \<comment> \<open>Where the chain ends: at \<^verbatim>\<open>Object.prototype\<close> or at \<^verbatim>\<open>null\<close>.\<close>
  "chain_end P n ObjectPrototype = ObjectPrototype"
| "chain_end P n NoPrototype = NoPrototype"
| "chain_end P 0 (Object a) = Object a"
| "chain_end P (Suc n) (Object a) = chain_end P n (P a)"

definition chain :: "heap \<Rightarrow> protos \<Rightarrow> nat \<Rightarrow> nat list" where
  \<comment> \<open>An object followed by the objects of its prototype chain.\<close>
  "chain h P a = a # ancestors P (length h) (P a)"

definition setter_found :: "heap \<Rightarrow> protos \<Rightarrow> nat \<Rightarrow> bool" where
  \<comment> \<open>Whether \<^verbatim>\<open>target["__proto__"] = v\<close> reaches the accessor of \<^verbatim>\<open>Object.prototype\<close>: neither
      the target nor an object of its chain has a data property of that name, and the
      chain ends at \<^verbatim>\<open>Object.prototype\<close>.\<close>
  "setter_found h P t =
     (''__proto__'' \<notin> fst ` set (concat (map (fetch h) (chain h P t))) \<and>
      chain_end P (length h) (P t) = ObjectPrototype)"

definition assign_key :: "nat \<Rightarrow> heap \<times> protos \<Rightarrow> string \<times> val \<Rightarrow> error + heap \<times> protos" where
  \<comment> \<open>The assignment \<^verbatim>\<open>target[k] = v\<close> of \<^verbatim>\<open>Object.assign\<close> on a plain target. Where it reaches
      the accessor, an object or \<^verbatim>\<open>null\<close> becomes the prototype of the target (a TypeError
      if that would close a cycle) and any other value is ignored. Everywhere else the
      target gets or keeps a property of its own.\<close>
  "assign_key t hp kv =
     (let h = fst hp; P = snd hp; k = fst kv; v = snd kv
      in if k = ''__proto__'' \<and> setter_found h P t
         then (case v of
                 Ref p \<Rightarrow> if t \<in> set (chain h P p) then Inl TypeError
                          else Inr (h, P(t := Object p))
               | Null \<Rightarrow> Inr (h, P(t := NoPrototype))
               | _ \<Rightarrow> Inr (h, P))
         else Inr (h[t := put k v (fetch h t)], P))"

fun assign_entries :: "nat \<Rightarrow> obj \<Rightarrow> heap \<times> protos \<Rightarrow> completion \<times> heap \<times> protos" where
  \<comment> \<open>The properties of one source, in order, up to the first error.\<close>
  "assign_entries t [] hp = (Normal, hp)"
| "assign_entries t (kv # es) hp =
     (case assign_key t hp kv of
        Inl e \<Rightarrow> (Throw e, hp)
      | Inr hp' \<Rightarrow> assign_entries t es hp')"

fun assign_sources :: "nat \<Rightarrow> val list \<Rightarrow> heap \<times> protos \<Rightarrow> completion \<times> heap \<times> protos" where
  \<comment> \<open>\<^verbatim>\<open>Object.assign(target, ...sources)\<close>: \<^verbatim>\<open>undefined\<close> and \<^verbatim>\<open>null\<close> are skipped, the own
      enumerable properties of another source are read when its turn comes.\<close>
  "assign_sources t [] hp = (Normal, hp)"
| "assign_sources t (src # srcs) hp =
     (if nullish src then assign_sources t srcs hp
      else (case assign_entries t (own_entries (fst hp) src) hp of
              (Throw e, hp') \<Rightarrow> (Throw e, hp')
            | (Normal, hp') \<Rightarrow> assign_sources t srcs hp'))"

definition set_store :: "heap \<times> protos \<Rightarrow> machine \<Rightarrow> machine" where
  "set_store hp s = s\<lparr>base := (base s)\<lparr>heap := fst hp\<rparr>, protos := snd hp\<rparr>"

definition new_literal :: "machine \<Rightarrow> nat \<times> machine" where
  \<comment> \<open>The object literal \<^verbatim>\<open>{}\<close>: no properties, prototype \<^verbatim>\<open>Object.prototype\<close>.\<close>
  "new_literal s =
     (length (heap (base s)),
      set_store (heap (base s) @ [[]], (protos s)(length (heap (base s)) := ObjectPrototype)) s)"

definition Object_assign_run :: "nat \<Rightarrow> val list \<Rightarrow> machine \<Rightarrow> completion \<times> machine" where
  "Object_assign_run t srcs s =
     (let (c, hp) = assign_sources t srcs (heap (base s), protos s) in (c, set_store hp s))"

definition get_run :: "machine \<Rightarrow> val \<Rightarrow> string \<Rightarrow> error + val" where
  \<comment> \<open>The property read \<^verbatim>\<open>v[key]\<close> for the names the loop visits, the decimal indices: on an
      object the first data property of that name along the prototype chain, \<^verbatim>\<open>undefined\<close>
      where there is none (no built-in prototype has a property named by an index); on a
      primitive as \<open>get_prop\<close>.\<close>
  "get_run s v key = (case v of
       Ref a \<Rightarrow> Inr (case map_of (concat (map (fetch (heap (base s)))
                                      (chain (heap (base s)) (protos s) a))) key of
                       None \<Rightarrow> Undefined
                     | Some x \<Rightarrow> x)
     | _ \<Rightarrow> get_prop (heap (base s)) v key)"

fun run_listeners ::
  "handler \<Rightarrow> nat \<Rightarrow> string \<Rightarrow> val list \<Rightarrow> nat list \<Rightarrow> machine \<Rightarrow> completion \<times> machine" where
  \<comment> \<open>Each listener in turn: the invocation is recorded and the listener runs; an error
      it raises is not caught and ends the delivery.\<close>
  "run_listeners H this name args [] s = (Normal, s)"
| "run_listeners H this name args (l # ls) s =
     (let c = \<lparr>receiver = this, listener = l, event = name, payload = args\<rparr>
      in case H c (s\<lparr>base := (base s)\<lparr>calls := calls (base s) @ [c]\<rparr>\<rparr>) of
           (Throw e, s') \<Rightarrow> (Throw e, s')
         | (Normal, s') \<Rightarrow> run_listeners H this name args ls s')"

definition emit_run ::
  "handler \<Rightarrow> nat \<Rightarrow> string \<Rightarrow> val list \<Rightarrow> machine \<Rightarrow> completion \<times> machine" where
  \<comment> \<open>Modelled from the spec: \<^verbatim>\<open>EventEmitter.emit\<close> is the Node.js library method. Sections
      4.1 and 5 of the spec: the subscribers of the channel are notified synchronously, in
      subscription order, and a subscriber may do anything, update the instance again
      included. The listeners called are those registered when \<^verbatim>\<open>emit\<close> starts; Node.js
      lets a listener's error out of \<^verbatim>\<open>emit\<close>.\<close>
  "emit_run H this name args s =
     run_listeners H this name args (subscribers (base s) this name) s"

definition state_run :: "nat \<Rightarrow> machine \<Rightarrow> (error + val) \<times> machine" where
  \<comment> \<open>\<^verbatim>\<open>const s = PrivateStates.states[this._id]; return s ? Object.assign({}, s) : s;\<close>\<close>
  "state_run this s =
     (let st = stored (base s) this
      in if truthy st
         then (let (t, s1) = new_literal s
               in case Object_assign_run t [st] s1 of
                    (Throw e, s2) \<Rightarrow> (Inl e, s2)
                  | (Normal, s2) \<Rightarrow> (Inr (Ref t), s2))
         else (Inr st, s))"

fun diff_loop_run ::
  "handler \<Rightarrow> nat \<Rightarrow> val \<Rightarrow> val \<Rightarrow> string list \<Rightarrow> machine \<Rightarrow> completion \<times> machine" where
  \<comment> \<open>The body of the \<^verbatim>\<open>for\<close> loop of \<^verbatim>\<open>setState\<close>, once for every name the loop visits.\<close>
  "diff_loop_run H this oldState newState [] s = (Normal, s)"
| "diff_loop_run H this oldState newState (key # keys) s =
     (case get_run s oldState key of
        Inl e \<Rightarrow> (Throw e, s)
      | Inr o' \<Rightarrow>
          (case get_run s newState key of
             Inl e \<Rightarrow> (Throw e, s)
           | Inr n \<Rightarrow>
               if strict_neq n o'
               then (case emit_run H this ''change'' [n, o'] s of
                       (Throw e, s') \<Rightarrow> (Throw e, s')
                     | (Normal, s') \<Rightarrow> diff_loop_run H this oldState newState keys s')
               else diff_loop_run H this oldState newState keys s))"

definition setState_run :: "handler \<Rightarrow> nat \<Rightarrow> val \<Rightarrow> machine \<Rightarrow> completion \<times> machine" where
  \<comment> \<open>\<^verbatim>\<open>setState(value)\<close>, line by line: the two locals, the store into \<^verbatim>\<open>PrivateStates.states\<close>,
      \<^verbatim>\<open>this.emit("statechange", newState, oldState)\<close>, then the loop over
      \<^verbatim>\<open>Object.keys(value)\<close> as the store is after the listeners ran.\<close>
  "setState_run H this value s =
     (let oldState = stored (base s) this;
          (t, s1) = new_literal s;
          (src, s2) = (if truthy oldState then (oldState, s1)
                       else (let (e, s') = new_literal s1 in (Ref e, s')));
          newState = Ref t
      in case Object_assign_run t [src, value] s2 of
           (Throw e, s3) \<Rightarrow> (Throw e, s3)
         | (Normal, s3) \<Rightarrow>
             (let s4 = s3\<lparr>base := (base s3)
                         \<lparr>ps_states := (ps_states (base s3))
                              (ident (emitters (base s3) ! this) \<mapsto> newState)\<rparr>\<rparr>
              in case emit_run H this ''statechange'' [newState, oldState] s4 of
                   (Throw e, s5) \<Rightarrow> (Throw e, s5)
                 | (Normal, s5) \<Rightarrow>
                     (case Object_keys (heap (base s5)) value of
                        Inl e \<Rightarrow> (Throw e, s5)
                      | Inr ks \<Rightarrow> diff_loop_run H this oldState newState (for_in ks) s5)))"




definition machine_of :: "world \<Rightarrow> machine" where
  \<comment> \<open>A state all of whose objects are plain: the prototype is \<^verbatim>\<open>Object.prototype\<close>.\<close>
  "machine_of w = \<lparr>base = w, protos = (\<lambda>a. ObjectPrototype)\<rparr>"



definition observes :: "handler \<Rightarrow> bool" where
  \<comment> \<open>The listeners only observe: each returns normally and leaves the state as it is.\<close>
  "observes H = (\<forall>c s. H c s = (Normal, s))"

definition ref_below :: "nat \<Rightarrow> val \<Rightarrow> bool" where
  "ref_below n v = (case v of Ref a \<Rightarrow> a < n | _ \<Rightarrow> True)"

definition refs_below :: "nat \<Rightarrow> obj \<Rightarrow> bool" where
  \<comment> \<open>Every reference held in a field is to one of the first \<open>n\<close> objects.\<close>
  "refs_below n ob = list_all (\<lambda>kv. ref_below n (snd kv)) ob"

definition links_below :: "nat \<Rightarrow> protos \<Rightarrow> bool" where
  \<comment> \<open>Every prototype that is an object is one of the first \<open>n\<close> objects.\<close>
  "links_below n P = (\<forall>a p. P a = Object p \<longrightarrow> p < n)"

definition wf_machine :: "machine \<Rightarrow> bool" where
  \<comment> \<open>What holds of the states of before, and no field and no prototype refers to an
      object that is not allocated.\<close>
  "wf_machine s =
     (wf_world (base s) \<and>
      list_all (refs_below (length (heap (base s)))) (heap (base s)) \<and>
      links_below (length (heap (base s))) (protos s))"

definition same_off :: "obj \<Rightarrow> obj \<Rightarrow> bool" where
  \<comment> \<open>Two objects have the same fields, the name \<^verbatim>\<open>__proto__\<close> apart.\<close>
  "same_off F G = (\<forall>key. key \<noteq> ''__proto__'' \<longrightarrow> map_of F key = map_of G key)"

section \<open>Objects and the store\<close>

lemma map_of_put: "map_of (put k v ob) = (map_of ob)(k \<mapsto> v)"
  by (induction ob) auto

lemma keys_put: "fst ` set (put k v ob) = insert k (fst ` set ob)"
  by (induction ob) auto

lemma distinct_put: "distinct (map fst ob) \<Longrightarrow> distinct (map fst (put k v ob))"
  by (induction ob) (auto simp: keys_put)


lemma put_all_Nil [simp]: "put_all ob [] = ob"
  by (simp add: put_all_def)

lemma put_all_Cons [simp]: "put_all ob (kv # es) = put_all (put (fst kv) (snd kv) ob) es"
  by (simp add: put_all_def)

lemma distinct_put_all: "distinct (map fst ob) \<Longrightarrow> distinct (map fst (put_all ob es))"
  by (induction es arbitrary: ob) (auto simp: distinct_put)



lemma fetch_append: "a < length h \<Longrightarrow> fetch (h @ xs) a = fetch h a"
  by (simp add: fetch_def nth_append)

lemma fetch_end [simp]: "fetch (h @ ob # xs) (length h) = ob"
  by (simp add: fetch_def nth_append)

lemma fetch_end2 [simp]: "fetch (h @ ob # ob2 # xs) (Suc (length h)) = ob2"
  by (simp add: fetch_def nth_append)

lemma val_ok_grow: "val_ok h v \<Longrightarrow> val_ok (h @ xs) v"
  by (cases v) (simp_all add: val_ok_def)

lemma own_entries_append: "val_ok h v \<Longrightarrow> own_entries (h @ xs) v = own_entries h v"
  by (cases v) (simp_all add: val_ok_def fetch_append)

lemma own_entries_falsy: "\<not> truthy v \<Longrightarrow> own_entries h v = []"
  by (cases v) (simp_all add: truthy_def)

lemma own_entries_nullish: "nullish v \<Longrightarrow> own_entries h v = []"
  by (auto simp: nullish_def)

lemma truthy_not_nullish: "truthy v \<Longrightarrow> \<not> nullish v"
  by (auto simp: nullish_def truthy_def)

lemma own_entries_upd_end:
  "val_ok h v \<Longrightarrow> own_entries ((h @ ob # xs)[length h := ob']) v = own_entries h v"
  by (cases v) (simp_all add: val_ok_def fetch_def nth_append list_update_append)

section \<open>Index names\<close>

text \<open>
  The names a \<^verbatim>\<open>for\<close>-\<^verbatim>\<open>in\<close> loop visits on an array are pairwise different: the decimal
  numeral of a number can be read back.
\<close>

lemma digit_char_val: "d < 10 \<Longrightarrow> of_char (digit_char d) = (48 + d :: nat)"
  by (simp add: digit_char_def)

lemma nat_of_string_of_nat: "nat_of_string (string_of_nat n) = n"
proof (induction n rule: string_of_nat.induct)
  case (1 n)
  show ?case
  proof (cases "n < 10")
    case True
    then show ?thesis
      by (simp add: string_of_nat.simps[of n] nat_of_string_def digit_char_val)
  next
    case False
    have "nat_of_string (string_of_nat n) =
            10 * nat_of_string (string_of_nat (n div 10)) + n mod 10"
      using False by (simp add: string_of_nat.simps[of n] nat_of_string_def digit_char_val)
    then show ?thesis
      using 1 False by simp
  qed
qed

lemma inj_string_of_nat: "inj string_of_nat"
  by (rule inj_on_inverseI[where g = nat_of_string]) (rule nat_of_string_of_nat)

lemma distinct_for_in: "distinct (for_in ks)"
  by (simp add: for_in_def distinct_map inj_string_of_nat[THEN inj_on_subset])

lemma for_in_Nil_iff: "for_in ks = [] \<longleftrightarrow> ks = []"
  by (simp add: for_in_def)


section \<open>The merged snapshot\<close>

lemma distinct_merged: "distinct (map fst (merged h old v))"
  by (simp add: merged_def distinct_put_all)




text \<open>
  \<^verbatim>\<open>Object.assign({}, oldState || {}, value)\<close> on the store: the target, allocated at the end
  of the store, becomes the merged snapshot, whether or not the second literal was needed.
\<close>

lemma assign_heap:
  assumes "val_ok h v" "val_ok h old"
  shows "Object_assign (length h) [if truthy old then old else Ref (Suc (length h)), v]
           (h @ [] # (if truthy old then [] else [[]]))
         = h @ merged h old v # (if truthy old then [] else [[]])"
proof (cases "truthy old")
  case True
  then have n: "\<not> nullish old"
    by (rule truthy_not_nullish)
  show ?thesis
    using True n assms
    by (cases "nullish v")
       (simp_all add: Object_assign_def assign_from_def merged_def own_entries_append
          own_entries_upd_end[where xs="[]", simplified] own_entries_nullish)
next
  case False
  show ?thesis
    using False assms
    by (cases "nullish v")
       (simp_all add: Object_assign_def assign_from_def merged_def own_entries_nullish
          own_entries_falsy own_entries_append own_entries_upd_end list_update_append)
qed

section \<open>Notifications\<close>

lemma deliveries_subscribers:
  "deliveries this name args w =
     map (\<lambda>l. \<lparr>receiver = this, listener = l, event = name, payload = args\<rparr>)
       (subscribers w this name)"
  by (simp add: deliveries_def subscribers_def comp_def)


lemma deliveries_calls [simp]:
  "deliveries this name args (w\<lparr>calls := cs\<rparr>) = deliveries this name args w"
  by (simp add: deliveries_def)

lemma change_at_calls [simp]:
  "change_at this old new (w\<lparr>calls := cs\<rparr>) = change_at this old new w"
  by (rule ext) (simp add: change_at_def)

lemma changes_calls [simp]:
  "changes this old new keys (w\<lparr>calls := cs\<rparr>) = changes this old new keys w"
  by (simp add: changes_def)

lemma changes_Nil [simp]: "changes this old new [] w = []"
  by (simp add: changes_def)

lemma changes_Cons [simp]:
  "changes this old new (key # keys) w =
     change_at this old new w key @ changes this old new keys w"
  by (simp add: changes_def)


section \<open>The loop of \<^verbatim>\<open>setState\<close>\<close>

lemma get_prop_value: "\<not> nullish v \<Longrightarrow> get_prop h v key = Inr (prop_value h v key)"
  by (cases v) (simp_all add: get_prop_def nullish_def prop_value_def)

lemma get_prop_nullish: "nullish v \<Longrightarrow> get_prop h v key = Inl TypeError"
  by (auto simp: get_prop_def nullish_def)


text \<open>
  The loop touches nothing but the record of invocations.
\<close>

lemma diff_loop_frame:
  "emitters (snd (diff_loop this old new keys w)) = emitters w \<and>
   ps_id (snd (diff_loop this old new keys w)) = ps_id w \<and>
   ps_states (snd (diff_loop this old new keys w)) = ps_states w \<and>
   heap (snd (diff_loop this old new keys w)) = heap w"
  by (induction keys arbitrary: w) (auto simp: emit_def split: sum.splits)

text \<open>
  In closed form: the first round raises when \<^verbatim>\<open>oldState\<close> is \<^verbatim>\<open>undefined\<close> or \<^verbatim>\<open>null\<close>;
  otherwise every round runs, and a round emits \<^verbatim>\<open>change\<close> when the two snapshots differ at
  the name it visits.
\<close>

lemma diff_loop_eq:
  "diff_loop this old (Ref t) keys w =
     (if keys \<noteq> [] \<and> nullish old then (Throw TypeError, w)
      else (Normal, w\<lparr>calls := calls w @ changes this old (Ref t) keys w\<rparr>))"
proof (induction keys arbitrary: w)
  case Nil
  show ?case by simp
next
  case (Cons key keys)
  show ?case
  proof (cases "nullish old")
    case True
    then show ?thesis
      by (simp add: get_prop_nullish)
  next
    case False
    have n: "\<not> nullish (Ref t)"
      by (simp add: nullish_def)
    show ?thesis
      using False Cons.IH
      by (simp add: get_prop_value[OF False] get_prop_value[OF n] emit_def change_at_def)
  qed
qed

lemma setState_diff_frame:
  "emitters (snd (setState_diff this v locals w)) = emitters w \<and>
   ps_id (snd (setState_diff this v locals w)) = ps_id w \<and>
   ps_states (snd (setState_diff this v locals w)) = ps_states w \<and>
   heap (snd (setState_diff this v locals w)) = heap w"
  by (simp add: setState_diff_def diff_loop_frame split: sum.splits)

section \<open>The two methods in closed form\<close>

lemma setState_emit_eq:
  assumes "val_ok (heap w) v" "val_ok (heap w) (stored w this)"
  shows "setState_emit this v w =
    ((stored w this, Ref (length (heap w))),
     w\<lparr>heap := heap w @ merged (heap w) (stored w this) v #
                 (if truthy (stored w this) then [] else [[]]),
       ps_states := (ps_states w)(ident (emitters w ! this) \<mapsto> Ref (length (heap w))),
       calls := calls w @
                deliveries this ''statechange'' [Ref (length (heap w)), stored w this] w\<rparr>)"
  using assign_heap[OF assms]
  by (cases "truthy (stored w this)")
     (simp_all add: setState_emit_def new_object_def emit_def deliveries_def Let_def)

lemma setState_eq:
  assumes "val_ok (heap w) v" "val_ok (heap w) (stored w this)"
  shows "setState this v w =
    (let w3 = snd (setState_emit this v w);
         old = stored w this;
         keys = for_in (map fst (own_entries (heap w) v))
     in if throws old v (heap w) then (Throw TypeError, w3)
        else (Normal,
              w3\<lparr>calls := calls w3 @ changes this old (Ref (length (heap w))) keys w3\<rparr>))"
  using assms
  by (simp add: setState_def setState_emit_eq[OF assms] setState_diff_def Object_keys_def
        diff_loop_eq own_entries_append for_in_Nil_iff Let_def throws_def)

lemma setState_parts:
  assumes "val_ok (heap w) v" "val_ok (heap w) (stored w this)"
  shows setState_fst: "fst (setState this v w) =
            (if throws (stored w this) v (heap w) then Throw TypeError else Normal)"
    and setState_heap: "heap (snd (setState this v w)) =
            heap w @ merged (heap w) (stored w this) v #
              (if truthy (stored w this) then [] else [[]])"
    and setState_states: "ps_states (snd (setState this v w)) =
            (ps_states w)(ident (emitters w ! this) \<mapsto> Ref (length (heap w)))"
    and setState_emitters: "emitters (snd (setState this v w)) = emitters w"
    and setState_id: "ps_id (snd (setState this v w)) = ps_id w"
  by (simp_all add: setState_eq[OF assms] setState_emit_eq[OF assms] Let_def)

text \<open>
  \<^verbatim>\<open>setState\<close> returns normally exactly when the update is neither \<^verbatim>\<open>undefined\<close> nor \<^verbatim>\<open>null\<close>
  and, where the update has a field at all, the old snapshot is neither.
\<close>

lemma setState_completes_iff:
  assumes "val_ok (heap w) v" "val_ok (heap w) (stored w this)"
  shows "fst (setState this v w) = Normal \<longleftrightarrow>
           \<not> nullish v \<and> (own_entries (heap w) v = [] \<or> \<not> nullish (stored w this))"
  by (auto simp: setState_fst[OF assms] throws_def)



lemma state_eq:
  assumes "val_ok (heap w) (stored w this)"
  shows "state this w =
     (if truthy (stored w this)
      then (Ref (length (heap w)),
            w\<lparr>heap := heap w @ [put_all [] (own_entries (heap w) (stored w this))]\<rparr>)
      else (stored w this, w))"
  using assms truthy_not_nullish[of "stored w this"]
  by (simp add: state_def new_object_def Object_assign_def assign_from_def Let_def
        own_entries_append)


text \<open>No method assigns \<^verbatim>\<open>_id\<close> or \<^verbatim>\<open>PrivateStates.id\<close> once the instance is constructed.\<close>

lemma setState_idents:
  "emitters (snd (setState this v w)) = emitters w \<and>
   ps_id (snd (setState this v w)) = ps_id w"
  by (simp add: setState_def setState_emit_def setState_diff_frame new_object_def emit_def
        Let_def split: prod.splits)

lemma state_idents:
  "emitters (snd (state this w)) = emitters w \<and> ps_id (snd (state this w)) = ps_id w \<and>
   ps_states (snd (state this w)) = ps_states w \<and> calls (snd (state this w)) = calls w"
  by (simp add: state_def new_object_def Let_def)

lemma on_idents:
  "map ident (emitters (on this name l w)) = map ident (emitters w) \<and>
   ps_id (on this name l w) = ps_id w"
  by (cases "this < length (emitters w)")
     (simp_all add: on_def map_update list_update_same_conv list_update_beyond)

section \<open>What holds of every reachable state\<close>

lemma wf_world_nth:
  assumes "wf_world w" "this < length (emitters w)"
  shows "val_ok (heap w) (stored w this)"
  using assms
  by (auto simp: wf_world_def stored_def list_all_length val_ok_def split: option.splits)



lemma wf_world_init: "wf_world init_world"
  by (simp add: wf_world_def init_world_def wf_heap_def)

lemma wf_world_constructor:
  assumes "wf_world w" "val_ok (heap w) i"
  shows "wf_world (snd (constructor i w))"
  using assms
  by (auto simp: wf_world_def constructor_def Let_def list_all_iff nth_append
        split: option.splits)

lemma wf_world_on:
  assumes "wf_world w"
  shows "wf_world (on this name l w)"
proof (cases "this < length (emitters w)")
  case False
  then show ?thesis
    using assms by (simp add: on_def list_update_beyond)
next
  case True
  have m: "map ident (emitters (on this name l w)) = map ident (emitters w)"
    by (simp add: on_idents)
  have "list_all P (map ident (emitters (on this name l w))) =
        list_all P (map ident (emitters w))" for P
    by (simp only: m)
  then have l: "list_all (\<lambda>e. P (ident e)) (emitters (on this name l w)) =
                list_all (\<lambda>e. P (ident e)) (emitters w)" for P
    by (simp add: list_all_iff)
  have h: "heap (on this name l w) = heap w" "ps_id (on this name l w) = ps_id w"
     "ps_states (on this name l w) = ps_states w"
    by (simp_all add: on_def)
  show ?thesis
    using assms unfolding wf_world_def h m
    using l[of "\<lambda>i. 0 < i \<and> i \<le> ps_id w"]
          l[of "\<lambda>i. case ps_states w i of None \<Rightarrow> True | Some s \<Rightarrow> val_ok (heap w) s"]
    by simp
qed

lemma wf_world_state:
  assumes "wf_world w" "this < length (emitters w)"
  shows "wf_world (snd (state this w))"
proof -
  have ok: "val_ok (heap w) (stored w this)"
    by (rule wf_world_nth[OF assms])
  have d: "distinct (map fst (put_all [] es))" for es
    by (simp add: distinct_put_all)
  show ?thesis
    using assms(1)
    by (auto simp: state_eq[OF ok] wf_world_def wf_heap_def d list_all_iff val_ok_grow
             split: option.splits)
qed

lemma wf_world_setState:
  assumes "wf_world w" "this < length (emitters w)" "val_ok (heap w) v"
  shows "wf_world (snd (setState this v w))"
proof -
  have ok: "val_ok (heap w) (stored w this)"
    by (rule wf_world_nth[OF assms(1,2)])
  note p = setState_heap[OF assms(3) ok] setState_states[OF assms(3) ok]
     setState_emitters[OF assms(3) ok] setState_id[OF assms(3) ok]
  show ?thesis
    using assms(1) unfolding wf_world_def p
    by (auto simp: wf_heap_def list_all_iff val_ok_def distinct_merged
          split: option.splits val.splits)
qed

lemma wf_world_allocated:
  assumes "wf_world w" "distinct (map fst ob)"
  shows "wf_world (w\<lparr>heap := heap w @ [ob]\<rparr>)"
  using assms
  by (auto simp: wf_world_def wf_heap_def list_all_iff val_ok_grow split: option.splits)

lemma wf_world_assigned:
  assumes "wf_world w" "distinct (map fst ob)"
  shows "wf_world (w\<lparr>heap := (heap w)[a := ob]\<rparr>)"
  using assms
  by (auto simp: wf_world_def wf_heap_def list_all_iff val_ok_def
        dest: set_update_subset_insert[THEN subsetD] split: option.splits val.splits)

lemma reachable_wf_world: "reachable w \<Longrightarrow> wf_world w"
proof (induction rule: reachable.induct)
  case loaded
  show ?case by (rule wf_world_init)
next
  case (constructed w i)
  then show ?case by (simp add: wf_world_constructor)
next
  case (updated w this v)
  then show ?case by (simp add: wf_world_setState)
next
  case (was_read w this)
  then show ?case by (simp add: wf_world_state)
next
  case (subscribed w this name l)
  then show ?case by (simp add: wf_world_on)
next
  case (allocated w ob)
  then show ?case by (simp add: wf_world_allocated)
next
  case (assigned w ob a)
  then show ?case by (simp add: wf_world_assigned)
qed

section \<open>Running the methods on the three states\<close>

lemma string_of_nat_0: "string_of_nat 0 = ''0''"
  by code_simp

lemmas run_defs =
  Let_def init_world_def constructor_def on_def setState_def setState_emit_def
  setState_diff_def state_def stored_def truthy_def new_object_def Object_assign_def
  assign_from_def nullish_def fetch_def emit_def deliveries_def Object_keys_def for_in_def
  string_of_nat_0 get_prop_def strict_neq_def merged_def subscribers_def prop_value_def

lemmas wf_defs = wf_world_def wf_heap_def val_ok_def

lemma world_ab_eq:
  "world_ab = \<lparr>heap = [[(''a'', Num 1), (''b'', Num 2)], [(''b'', Num 3)], [(''b'', Num 2)]],
       ps_id = 1, ps_states = [1 \<mapsto> Ref 0],
       emitters = [\<lparr>ident = 1, listeners = [(''statechange'', 7), (''change'', 8)]\<rparr>],
       calls = []\<rparr>"
  by (simp add: world_ab_def run_defs)

lemma world_base_eq:
  "world_base = \<lparr>heap = [[(''a'', Num 1)]],
       ps_id = 1, ps_states = [1 \<mapsto> Undefined],
       emitters = [\<lparr>ident = 1, listeners = [(''statechange'', 7)]\<rparr>],
       calls = []\<rparr>"
  by (simp add: world_base_def run_defs)


text \<open>The three states are states a program can reach.\<close>

lemma reachable_store:
  assumes "list_all (\<lambda>ob. distinct (map fst ob)) obs"
  shows "reachable (init_world\<lparr>heap := obs\<rparr>)"
  using assms
proof (induction obs rule: rev_induct)
  case Nil
  have "init_world\<lparr>heap := []\<rparr> = init_world"
    by (simp add: init_world_def)
  then show ?case
    by (simp add: loaded)
next
  case (snoc ob obs)
  then have r: "reachable (init_world\<lparr>heap := obs\<rparr>)" and d: "distinct (map fst ob)"
    by simp_all
  show ?case
    using allocated[OF r d] by simp
qed

lemma reachable_world_ab: "reachable world_ab"
proof -
  let ?w0 = "init_world\<lparr>heap := [[(''a'', Num 1), (''b'', Num 2)], [(''b'', Num 3)],
                                 [(''b'', Num 2)]]\<rparr>"
  have "reachable ?w0"
    by (rule reachable_store) simp
  then have "reachable (snd (constructor (Ref 0) ?w0))"
    by (rule constructed) (simp add: val_ok_def)
  then show ?thesis
    by (simp add: world_ab_def case_prod_beta Let_def subscribed)
qed

lemma reachable_world_base: "reachable world_base"
proof -
  let ?w0 = "init_world\<lparr>heap := [[(''a'', Num 1)]]\<rparr>"
  have "reachable ?w0"
    by (rule reachable_store) simp
  then have "reachable (snd (constructor Undefined ?w0))"
    by (rule constructed) (simp add: val_ok_def)
  then show ?thesis
    by (simp add: world_base_def case_prod_beta Let_def subscribed)
qed

lemma reachable_world_two: "reachable world_two"
proof -
  let ?w0 = "init_world\<lparr>heap := [[(''a'', Num 1)], [(''x'', Num 9)],
                                 [(''a'', Num 2)]]\<rparr>"
  have "reachable ?w0"
    by (rule reachable_store) simp
  then have "reachable (snd (constructor (Ref 0) ?w0))"
    by (rule constructed) (simp add: val_ok_def)
  then have "reachable (snd (constructor (Ref 1) (snd (constructor (Ref 0) ?w0))))"
    by (rule constructed) (simp add: val_ok_def constructor_def Let_def)
  then show ?thesis
    by (simp add: world_two_def case_prod_beta Let_def subscribed)
qed

section \<open>Assigning into a new object\<close>

lemma refs_below_Nil [simp]: "refs_below n []"
  by (simp add: refs_below_def)

lemma refs_below_put:
  "refs_below n ob \<Longrightarrow> ref_below n v \<Longrightarrow> refs_below n (put k v ob)"
  by (induction ob) (auto simp: refs_below_def)

lemma refs_below_mono: "refs_below n ob \<Longrightarrow> n \<le> m \<Longrightarrow> refs_below m ob"
  by (auto simp: refs_below_def list_all_iff ref_below_def split: val.splits)

lemma links_below_mono: "links_below n P \<Longrightarrow> n \<le> m \<Longrightarrow> links_below m P"
  by (auto simp: links_below_def intro: less_le_trans)

lemma links_belowD: "links_below n P \<Longrightarrow> P a = Object p \<Longrightarrow> p < n"
  by (simp add: links_below_def)

lemma links_below_default: "links_below n P \<Longrightarrow> links_below n (P(a := ObjectPrototype))"
  by (simp add: links_below_def)

lemma same_off_refl [simp]: "same_off F F"
  by (simp add: same_off_def)

lemma same_off_trans: "same_off F G \<Longrightarrow> same_off G K \<Longrightarrow> same_off F K"
  by (simp add: same_off_def)

lemma same_off_put: "same_off F G \<Longrightarrow> same_off (put k v F) (put k v G)"
  by (simp add: same_off_def map_of_put)

lemma same_off_skip: "same_off F (put ''__proto__'' v F)"
  by (simp add: same_off_def map_of_put)

lemma same_off_put_all: "same_off F G \<Longrightarrow> same_off (put_all F es) (put_all G es)"
  by (induction es arbitrary: F G) (simp_all add: same_off_put)

lemma ancestors_avoid:
  "links_below n P \<Longrightarrow> n \<le> t \<Longrightarrow> q \<noteq> Object t \<Longrightarrow> t \<notin> set (ancestors P m q)"
proof (induction P m q rule: ancestors.induct)
  case (4 P m a)
  have "P a \<noteq> Object t"
    using "4.prems"(2) links_belowD[OF "4.prems"(1), of a t] by auto
  then show ?case
    using 4 by auto
qed simp_all

lemma chain_avoid:
  assumes "links_below n P" "n \<le> t" "p < n"
  shows "t \<notin> set (chain h P p)"
proof -
  have "P p \<noteq> Object t"
    using assms(2) links_belowD[OF assms(1), of p t] by auto
  then show ?thesis
    using assms ancestors_avoid[OF assms(1,2)] by (simp add: chain_def)
qed

lemma update_same: "h[t := fetch h t] = h"
  by (cases "t < length h") (simp_all add: fetch_def list_update_beyond)

text \<open>
  Assigning to an object that is new: nothing refers to it yet, so the accessor never
  refuses, and for every name but \<^verbatim>\<open>__proto__\<close> the object ends with the field assigned.
\<close>

lemma assign_key_new:
  assumes "links_below n P" "n \<le> t" "refs_below n (fetch h t)" "ref_below n v"
  shows "\<exists>F P'. assign_key t (h, P) (k, v) = Inr (h[t := F], P') \<and>
           same_off F (put k v (fetch h t)) \<and>
           (distinct (map fst (fetch h t)) \<longrightarrow> distinct (map fst F)) \<and>
           (\<forall>a. a \<noteq> t \<longrightarrow> P' a = P a) \<and> links_below n P' \<and> refs_below n F"
proof (cases "k = ''__proto__'' \<and> setter_found h P t")
  case False
  then have "assign_key t (h, P) (k, v) = Inr (h[t := put k v (fetch h t)], P)"
    by (auto simp: assign_key_def)
  then show ?thesis
    using assms by (auto simp: distinct_put refs_below_put)
next
  case True
  have keep: "same_off (fetch h t) (put k v (fetch h t))"
    using True by (simp add: same_off_skip)
  show ?thesis
  proof (cases v)
    case (Ref p)
    then have p: "p < n"
      using assms(4) by (simp add: ref_below_def)
    have "t \<notin> set (chain h P p)"
      by (rule chain_avoid[OF assms(1,2) p])
    then have "assign_key t (h, P) (k, v) = Inr (h[t := fetch h t], P(t := Object p))"
      using True Ref by (simp add: assign_key_def update_same)
    moreover have "links_below n (P(t := Object p))"
      using assms(1) p by (auto simp: links_below_def)
    ultimately show ?thesis
      using keep assms(3) by auto
  next
    case Null
    then have "assign_key t (h, P) (k, v) = Inr (h[t := fetch h t], P(t := NoPrototype))"
      using True by (simp add: assign_key_def update_same)
    moreover have "links_below n (P(t := NoPrototype))"
      using assms(1) by (auto simp: links_below_def)
    ultimately show ?thesis
      using keep assms(3) by auto
  qed (use True keep assms(1,3) in
        \<open>auto simp: assign_key_def intro!: exI[of _ "fetch h t"] update_same[symmetric]\<close>)
qed

lemma fetch_update [simp]: "t < length h \<Longrightarrow> fetch (h[t := F]) t = F"
  by (simp add: fetch_def)

lemma fetch_update_other: "a \<noteq> t \<Longrightarrow> fetch (h[t := F]) a = fetch h a"
  by (simp add: fetch_def)

lemma assign_entries_new:
  assumes "links_below n P" "n \<le> t" "t < length h" "refs_below n (fetch h t)" "refs_below n es"
  shows "\<exists>F P'. assign_entries t es (h, P) = (Normal, h[t := F], P') \<and>
           same_off F (put_all (fetch h t) es) \<and>
           (distinct (map fst (fetch h t)) \<longrightarrow> distinct (map fst F)) \<and>
           (\<forall>a. a \<noteq> t \<longrightarrow> P' a = P a) \<and> links_below n P' \<and> refs_below n F"
  using assms
proof (induction es arbitrary: h P)
  case Nil
  then show ?case
    by (auto simp: update_same intro: exI[of _ "fetch h t"])
next
  case (Cons kv es)
  obtain k v where kv: "kv = (k, v)"
    by (cases kv)
  have v: "ref_below n v" and es: "refs_below n es"
    using Cons.prems(5) by (simp_all add: kv refs_below_def)
  obtain F1 P1 where
    step: "assign_key t (h, P) (k, v) = Inr (h[t := F1], P1)" and
    s1: "same_off F1 (put k v (fetch h t))" and
    d1: "distinct (map fst (fetch h t)) \<longrightarrow> distinct (map fst F1)" and
    p1: "\<forall>a. a \<noteq> t \<longrightarrow> P1 a = P a" and
    l1: "links_below n P1" and r1: "refs_below n F1"
    using assign_key_new[OF Cons.prems(1,2,4) v, where k = k] by blast
  have len: "t < length (h[t := F1])"
    using Cons.prems(3) by simp
  have f1: "fetch (h[t := F1]) t = F1"
    using Cons.prems(3) by simp
  obtain F P' where
    rest: "assign_entries t es (h[t := F1], P1) = (Normal, (h[t := F1])[t := F], P')" and
    s2: "same_off F (put_all F1 es)" and
    d2: "distinct (map fst F1) \<longrightarrow> distinct (map fst F)" and
    p2: "\<forall>a. a \<noteq> t \<longrightarrow> P' a = P1 a" and
    l2: "links_below n P'" and r2: "refs_below n F"
    using Cons.IH[OF l1 Cons.prems(2) len _ es, of ] r1 f1 by auto
  have "same_off F (put_all (fetch h t) (kv # es))"
    using same_off_trans[OF s2 same_off_put_all[OF s1]] by (simp add: kv)
  moreover have "assign_entries t (kv # es) (h, P) = (Normal, h[t := F], P')"
    using step rest by (simp add: kv)
  ultimately show ?case
    using d1 d2 p1 p2 l2 r2 by auto
qed

lemma own_entries_update:
  "v \<noteq> Ref t \<Longrightarrow> own_entries (h[t := F]) v = own_entries h v"
  by (cases v) (simp_all add: fetch_update_other)

lemma refs_below_own_entries:
  assumes "list_all (refs_below n) h"
  shows "refs_below n (own_entries h v)"
proof (cases v)
  case (Ref a)
  then show ?thesis
    using assms by (auto simp: fetch_def list_all_length)
next
  case (Str s)
  then show ?thesis
    by (simp add: refs_below_def list_all_iff ref_below_def)
qed simp_all

lemma assign_sources_step:
  "assign_sources t (src # srcs) hp =
     (case assign_entries t (own_entries (fst hp) src) hp of
        (Throw e, hp') \<Rightarrow> (Throw e, hp')
      | (Normal, hp') \<Rightarrow> assign_sources t srcs hp')"
  by (simp add: own_entries_nullish)

lemma assign_sources_new:
  assumes "links_below n P" "n \<le> t" "t < length h" "fetch h t = []"
    and "refs_below n (own_entries h a)" "refs_below n (own_entries h b)"
    and "b \<noteq> Ref t"
  shows "\<exists>F P'. assign_sources t [a, b] (h, P) = (Normal, h[t := F], P') \<and>
           same_off F (put_all (put_all [] (own_entries h a)) (own_entries h b)) \<and>
           distinct (map fst F) \<and>
           (\<forall>x. x \<noteq> t \<longrightarrow> P' x = P x) \<and> links_below n P' \<and> refs_below n F"
proof -
  have r0: "refs_below n (fetch h t)"
    by (simp add: assms(4))
  obtain F1 P1 where
    one: "assign_entries t (own_entries h a) (h, P) = (Normal, h[t := F1], P1)" and
    s1: "same_off F1 (put_all [] (own_entries h a))" and
    d1: "distinct (map fst F1)" and
    p1: "\<forall>x. x \<noteq> t \<longrightarrow> P1 x = P x" and
    l1: "links_below n P1" and r1: "refs_below n F1"
    using assign_entries_new[OF assms(1,2,3) r0 assms(5)] by (auto simp: assms(4))
  let ?h1 = "h[t := F1]"
  have len: "t < length ?h1"
    using assms(3) by simp
  have f1: "fetch ?h1 t = F1"
    using assms(3) by simp
  have eb: "own_entries ?h1 b = own_entries h b"
    by (rule own_entries_update[OF assms(7)])
  obtain F P' where
    two: "assign_entries t (own_entries h b) (?h1, P1) = (Normal, ?h1[t := F], P')" and
    s2: "same_off F (put_all F1 (own_entries h b))" and
    d2: "distinct (map fst F)" and
    p2: "\<forall>x. x \<noteq> t \<longrightarrow> P' x = P1 x" and
    l2: "links_below n P'" and r2: "refs_below n F"
    using assign_entries_new[OF l1 assms(2) len _ assms(6)] r1 d1 by (auto simp: f1)
  have s: "same_off F (put_all (put_all [] (own_entries h a)) (own_entries h b))"
    by (rule same_off_trans[OF s2 same_off_put_all[OF s1]])
  have "assign_sources t [a, b] (h, P) = (Normal, h[t := F], P')"
    using one two by (simp add: assign_sources_step eb del: assign_sources.simps(2))
  then show ?thesis
    using s d2 p1 p2 l2 r2 by auto
qed


section \<open>The methods run with listeners that only observe\<close>

lemma run_listeners_observes:
  assumes "observes H"
  shows "run_listeners H this name args ls s =
           (Normal, s\<lparr>base := (base s)\<lparr>calls := calls (base s) @
              map (\<lambda>l. \<lparr>receiver = this, listener = l, event = name, payload = args\<rparr>) ls\<rparr>\<rparr>)"
proof (induction ls arbitrary: s)
  case Nil
  show ?case by simp
next
  case (Cons l ls)
  let ?c = "\<lparr>receiver = this, listener = l, event = name, payload = args\<rparr>"
  let ?s1 = "s\<lparr>base := (base s)\<lparr>calls := calls (base s) @ [?c]\<rparr>\<rparr>"
  have hh: "H ?c ?s1 = (Normal, ?s1)"
    using assms by (simp add: observes_def)
  have "run_listeners H this name args (l # ls) s = run_listeners H this name args ls ?s1"
    by (simp only: run_listeners.simps Let_def hh prod.case completion.case)
  then show ?case
    by (simp add: Cons.IH)
qed

lemma emit_run_observes:
  assumes "observes H"
  shows "emit_run H this name args s = (Normal, s\<lparr>base := emit this name args (base s)\<rparr>)"
  by (simp add: emit_run_def run_listeners_observes[OF assms] emit_def deliveries_subscribers)

lemma get_run_calls [simp]:
  "get_run (s\<lparr>base := (base s)\<lparr>calls := cs\<rparr>\<rparr>) v key = get_run s v key"
  by (cases v) (simp_all add: get_run_def)

lemma get_run_nullish: "nullish v \<Longrightarrow> get_run s v key = Inl TypeError"
  by (auto simp: get_run_def nullish_def get_prop_def)

lemma get_run_value: "\<not> nullish v \<Longrightarrow> \<exists>x. get_run s v key = Inr x"
  by (cases v) (simp_all add: get_run_def nullish_def get_prop_def)

lemma diff_loop_run_observes:
  assumes "observes H"
  shows "\<exists>cs. diff_loop_run H this old new keys s =
           (if keys \<noteq> [] \<and> (nullish old \<or> nullish new) then Throw TypeError else Normal,
            s\<lparr>base := (base s)\<lparr>calls := calls (base s) @ cs\<rparr>\<rparr>) \<and>
           (keys \<noteq> [] \<and> (nullish old \<or> nullish new) \<longrightarrow> cs = []) \<and>
           (\<forall>c \<in> set cs. event c = ''change'' \<and> receiver c = this)"
proof (induction keys arbitrary: s)
  case Nil
  show ?case by (auto intro: exI[of _ "[]"])
next
  case (Cons key keys)
  show ?case
  proof (cases "nullish old \<or> nullish new")
    case True
    have "diff_loop_run H this old new (key # keys) s = (Throw TypeError, s)"
    proof (cases "nullish old")
      case True
      then show ?thesis by (simp add: get_run_nullish)
    next
      case False
      then obtain x where "get_run s old key = Inr x"
        using get_run_value by blast
      moreover have "nullish new"
        using True False by simp
      ultimately show ?thesis
        by (simp add: get_run_nullish)
    qed
    then show ?thesis
      using True by (auto intro: exI[of _ "[]"])
  next
    case False
    obtain o' n where o: "get_run s old key = Inr o'" and n: "get_run s new key = Inr n"
      using False get_run_value by blast
    let ?s1 = "if strict_neq n o' then s\<lparr>base := emit this ''change'' [n, o'] (base s)\<rparr> else s"
    let ?c1 = "if strict_neq n o' then deliveries this ''change'' [n, o'] (base s) else []"
    have s1: "?s1 = s\<lparr>base := (base s)\<lparr>calls := calls (base s) @ ?c1\<rparr>\<rparr>"
      by (simp add: emit_def)
    obtain cs where
      rest: "diff_loop_run H this old new keys ?s1 =
               (Normal, ?s1\<lparr>base := (base ?s1)\<lparr>calls := calls (base ?s1) @ cs\<rparr>\<rparr>)" and
      ev: "\<forall>c \<in> set cs. event c = ''change'' \<and> receiver c = this"
      using Cons.IH[of ?s1] False by auto
    have "diff_loop_run H this old new (key # keys) s = diff_loop_run H this old new keys ?s1"
      by (simp add: o n emit_run_observes[OF assms])
    also have "\<dots> = (Normal, s\<lparr>base := (base s)\<lparr>calls := calls (base s) @ ?c1 @ cs\<rparr>\<rparr>)"
      unfolding rest by (simp add: emit_def)
    finally have "diff_loop_run H this old new (key # keys) s =
        (Normal, s\<lparr>base := (base s)\<lparr>calls := calls (base s) @ ?c1 @ cs\<rparr>\<rparr>)" .
    moreover have "\<forall>c \<in> set (?c1 @ cs). event c = ''change'' \<and> receiver c = this"
      using ev by (auto simp: deliveries_def)
    ultimately show ?thesis
      using False by (intro exI[of _ "?c1 @ cs"]) simp
  qed
qed

lemma wf_machine_refs: "wf_machine s \<Longrightarrow> list_all (refs_below (length (heap (base s)))) (heap (base s))"
  by (simp add: wf_machine_def)

lemma throws_new_nullish: "\<not> nullish (Ref t)"
  by (simp add: nullish_def)

text \<open>
  \<^verbatim>\<open>setState\<close> in closed form when the listeners only observe: it raises exactly when the
  loop does, the new snapshot is stored, the \<^verbatim>\<open>statechange\<close> listeners were invoked, and the
  new object has the fields of the merge, \<^verbatim>\<open>__proto__\<close> apart.
\<close>

lemma setState_run_observed:
  assumes "wf_machine s" "this < length (emitters (base s))" "val_ok (heap (base s)) v"
    and "observes H"
  shows "\<exists>F P' cs.
           setState_run H this v s =
             (if throws (stored (base s) this) v (heap (base s)) then Throw TypeError else Normal,
              s\<lparr>base := (base s)
                   \<lparr>heap := heap (base s) @ F #
                              (if truthy (stored (base s) this) then [] else [[]]),
                     ps_states := (ps_states (base s))
                        (ident (emitters (base s) ! this) \<mapsto> Ref (length (heap (base s)))),
                     calls := calls (base s) @
                        deliveries this ''statechange''
                          [Ref (length (heap (base s))), stored (base s) this] (base s) @ cs\<rparr>,
                 protos := P'\<rparr>) \<and>
           same_off F (merged (heap (base s)) (stored (base s) this) v) \<and>
           distinct (map fst F) \<and> refs_below (length (heap (base s))) F \<and>
           links_below (length (heap (base s))) P' \<and>
           (throws (stored (base s) this) v (heap (base s)) \<longrightarrow> cs = []) \<and>
           (\<forall>c \<in> set cs. event c = ''change'' \<and> receiver c = this)"
proof -
  let ?h = "heap (base s)"
  let ?P = "protos s"
  let ?old = "stored (base s) this"
  let ?t = "length ?h"
  let ?rest = "if truthy ?old then [] else [[]]"
  let ?h2 = "?h @ [] # ?rest"
  let ?P2 = "if truthy ?old then ?P(?t := ObjectPrototype)
             else ?P(?t := ObjectPrototype, Suc ?t := ObjectPrototype)"
  let ?src = "if truthy ?old then ?old else Ref (Suc ?t)"
  have wfw: "wf_world (base s)"
    using assms(1) by (simp add: wf_machine_def)
  have ok: "val_ok ?h ?old"
    by (rule wf_world_nth[OF wfw assms(2)])
  have l2: "links_below ?t ?P2"
    using assms(1) by (simp add: wf_machine_def links_below_default)
  have r2: "list_all (refs_below ?t) ?h2"
    using wf_machine_refs[OF assms(1)] by simp
  have vt: "v \<noteq> Ref ?t"
    using assms(3) by (auto simp: val_ok_def)
  obtain F P' where
    asg: "assign_sources ?t [?src, v] (?h2, ?P2) = (Normal, ?h2[?t := F], P')" and
    so: "same_off F (put_all (put_all [] (own_entries ?h2 ?src)) (own_entries ?h2 v))" and
    d: "distinct (map fst F)" and lb: "links_below ?t P'" and rb: "refs_below ?t F"
    using assign_sources_new[OF l2 _ _ _ refs_below_own_entries[OF r2]
            refs_below_own_entries[OF r2] vt, of ?src]
    by auto
  have es: "own_entries ?h2 ?src = own_entries ?h ?old"
    using ok by (simp add: own_entries_append own_entries_falsy)
  have ev: "own_entries ?h2 v = own_entries ?h v"
    by (rule own_entries_append[OF assms(3)])
  have so': "same_off F (merged ?h ?old v)"
    using so by (simp only: es ev merged_def)
  have h3: "?h2[?t := F] = ?h @ F # ?rest"
    by (simp add: list_update_append)
  have ev3: "own_entries (?h @ F # ?rest) v = own_entries ?h v"
    by (rule own_entries_append[OF assms(3)])
  let ?s4 = "s\<lparr>base := (base s)
                   \<lparr>heap := ?h @ F # ?rest,
                     ps_states := (ps_states (base s))
                        (ident (emitters (base s) ! this) \<mapsto> Ref ?t)\<rparr>,
                 protos := P'\<rparr>"
  let ?s5 = "?s4\<lparr>base := emit this ''statechange'' [Ref ?t, ?old] (base ?s4)\<rparr>"
  obtain cs where
    loop: "diff_loop_run H this ?old (Ref ?t) (for_in (map fst (own_entries ?h v))) ?s5 =
       (if for_in (map fst (own_entries ?h v)) \<noteq> [] \<and> (nullish ?old \<or> nullish (Ref ?t))
        then Throw TypeError else Normal,
        ?s5\<lparr>base := (base ?s5)\<lparr>calls := calls (base ?s5) @ cs\<rparr>\<rparr>)" and
    c0: "for_in (map fst (own_entries ?h v)) \<noteq> [] \<and> (nullish ?old \<or> nullish (Ref ?t)) \<longrightarrow> cs = []" and
    cev: "\<forall>c \<in> set cs. event c = ''change'' \<and> receiver c = this"
    using diff_loop_run_observes[OF assms(4), of this ?old "Ref ?t" _ ?s5] by blast
  let ?cs = "if nullish v then [] else cs"
  have run: "setState_run H this v s =
      (if throws ?old v ?h then Throw TypeError else Normal,
       ?s4\<lparr>base := (base ?s4)\<lparr>calls := calls (base s) @
                        deliveries this ''statechange'' [Ref ?t, ?old] (base s) @ ?cs\<rparr>\<rparr>)"
  proof (cases "truthy ?old")
    case True
    then show ?thesis
      using asg loop
      by (simp add: setState_run_def new_literal_def set_store_def Object_assign_run_def Let_def
            h3 emit_run_observes[OF assms(4)] Object_keys_def own_entries_append[OF assms(3)]
            for_in_Nil_iff throws_def
            throws_new_nullish emit_def deliveries_def del: assign_sources.simps)
  next
    case False
    then show ?thesis
      using asg loop
      by (simp add: setState_run_def new_literal_def set_store_def Object_assign_run_def Let_def
            h3 emit_run_observes[OF assms(4)] Object_keys_def own_entries_append[OF assms(3)]
            for_in_Nil_iff throws_def
            throws_new_nullish emit_def deliveries_def del: assign_sources.simps)
  qed
  have c0': "throws ?old v ?h \<longrightarrow> ?cs = []"
    using c0 by (auto simp: throws_def for_in_Nil_iff)
  have cev': "\<forall>c \<in> set ?cs. event c = ''change'' \<and> receiver c = this"
    using cev by simp
  show ?thesis
    using run so' d rb lb c0' cev'
    by (intro exI[of _ F] exI[of _ P'] exI[of _ ?cs]) simp
qed

text \<open>The state an update leaves, its listeners only observing, is again one with no
  dangling reference and no dangling prototype link, so the hypothesis of the results below
  holds again for the next update.\<close>

lemma wf_machine_setState_run:
  assumes "wf_machine s" "this < length (emitters (base s))" "val_ok (heap (base s)) v"
    and "observes H"
  shows "wf_machine (snd (setState_run H this v s))"
proof -
  let ?h = "heap (base s)"
  let ?t = "length ?h"
  let ?rest = "if truthy (stored (base s) this) then [] else [[]]"
  obtain F P' cs where
    run: "setState_run H this v s =
             (if throws (stored (base s) this) v ?h then Throw TypeError else Normal,
              s\<lparr>base := (base s)
                   \<lparr>heap := ?h @ F # ?rest,
                     ps_states := (ps_states (base s))
                        (ident (emitters (base s) ! this) \<mapsto> Ref ?t),
                     calls := calls (base s) @
                        deliveries this ''statechange'' [Ref ?t, stored (base s) this] (base s) @ cs\<rparr>,
                 protos := P'\<rparr>)" and
    d: "distinct (map fst F)" and rb: "refs_below ?t F" and lb: "links_below ?t P'"
    using setState_run_observed[OF assms] by blast
  have wfw: "wf_world (base s)" and refs: "list_all (refs_below ?t) ?h"
    using assms(1) by (simp_all add: wf_machine_def)
  have le: "?t \<le> length (?h @ F # ?rest)"
    by simp
  have w: "wf_world ((base s)\<lparr>heap := ?h @ F # ?rest,
                     ps_states := (ps_states (base s))
                        (ident (emitters (base s) ! this) \<mapsto> Ref ?t),
                     calls := calls (base s) @
                        deliveries this ''statechange'' [Ref ?t, stored (base s) this] (base s) @ cs\<rparr>)"
    using wfw d
    by (auto simp: wf_world_def wf_heap_def list_all_iff val_ok_def
          split: option.splits val.splits)
  have r: "list_all (refs_below (length (?h @ F # ?rest))) (?h @ F # ?rest)"
    using refs rb refs_below_mono[OF _ le] by (auto simp: list_all_iff)
  have l: "links_below (length (?h @ F # ?rest)) P'"
    by (rule links_below_mono[OF lb le])
  show ?thesis
    using w r l by (simp add: run wf_machine_def)
qed





lemma wf_machine_of:
  "wf_world w \<Longrightarrow> list_all (refs_below (length (heap w))) (heap w) \<Longrightarrow> wf_machine (machine_of w)"
  by (simp add: wf_machine_def machine_of_def links_below_def)

section \<open>Where the two descriptions agree\<close>

lemma assign_entries_plain:
  assumes "''__proto__'' \<notin> fst ` set es" "t < length h"
  shows "assign_entries t es (h, P) = (Normal, h[t := put_all (fetch h t) es], P)"
  using assms
proof (induction es arbitrary: h)
  case Nil
  show ?case by (simp add: update_same)
next
  case (Cons kv es)
  have "assign_key t (h, P) kv = Inr (h[t := put (fst kv) (snd kv) (fetch h t)], P)"
    using Cons.prems(1) by (auto simp: assign_key_def Let_def)
  then show ?case
    using Cons by simp
qed

lemma default_protos [simp]: "(\<lambda>a. ObjectPrototype)(t := ObjectPrototype) = (\<lambda>a. ObjectPrototype)"
  by (simp add: fun_eq_iff)

lemma get_run_plain:
  "protos s = (\<lambda>a. ObjectPrototype) \<Longrightarrow> get_run s v key = get_prop (heap (base s)) v key"
  by (cases v) (simp_all add: get_run_def chain_def get_prop_def)

lemma diff_loop_run_plain:
  assumes "observes H" "protos s = (\<lambda>a. ObjectPrototype)"
  shows "diff_loop_run H this old new keys s =
           (fst (diff_loop this old new keys (base s)),
            s\<lparr>base := snd (diff_loop this old new keys (base s))\<rparr>)"
  using assms(2)
proof (induction keys arbitrary: s)
  case Nil
  show ?case by simp
next
  case (Cons key keys)
  have p: "protos (s\<lparr>base := emit this ''change'' args (base s)\<rparr>) = (\<lambda>a. ObjectPrototype)" for args
    using Cons.prems by simp
  show ?case
    by (simp add: get_run_plain[OF Cons.prems] emit_run_observes[OF assms(1)] Cons.IH[OF p]
          Cons.IH[OF Cons.prems] split: sum.splits)
qed

text \<open>
  With listeners that only observe, on a store of plain objects in which neither the
  old snapshot nor the update has a field named \<^verbatim>\<open>__proto__\<close>, the methods with the
  listeners run compute what \<open>setState\<close> and \<open>state\<close> compute.
\<close>

lemma setState_run_plain:
  assumes "observes H" "val_ok (heap w) v" "val_ok (heap w) (stored w this)"
    and "''__proto__'' \<notin> fst ` set (own_entries (heap w) v)"
    and "''__proto__'' \<notin> fst ` set (own_entries (heap w) (stored w this))"
  shows "setState_run H this v (machine_of w) =
           (fst (setState this v w), machine_of (snd (setState this v w)))"
proof -
  let ?h = "heap w"
  let ?t = "length ?h"
  let ?old = "stored w this"
  let ?rest = "if truthy ?old then [] else [[]]"
  let ?h2 = "?h @ [] # ?rest"
  let ?src = "if truthy ?old then ?old else Ref (Suc ?t)"
  let ?P = "\<lambda>a::nat. ObjectPrototype"
  have es: "own_entries ?h2 ?src = own_entries ?h ?old"
    using assms(3) by (simp add: own_entries_append own_entries_falsy)
  have e1: "assign_entries ?t (own_entries ?h2 ?src) (?h2, ?P) =
              (Normal, ?h2[?t := put_all [] (own_entries ?h ?old)], ?P)"
    using assign_entries_plain[of "own_entries ?h2 ?src" ?t ?h2 ?P] assms(5)
    by (simp add: es)
  let ?h3 = "?h @ put_all [] (own_entries ?h ?old) # ?rest"
  have h3: "?h2[?t := put_all [] (own_entries ?h ?old)] = ?h3"
    by (simp add: list_update_append)
  have ev: "own_entries ?h3 v = own_entries ?h v"
    by (rule own_entries_append[OF assms(2)])
  have "assign_entries ?t (own_entries ?h v) (?h3, ?P) =
          (Normal, ?h3[?t := put_all (fetch ?h3 ?t) (own_entries ?h v)], ?P)"
    by (rule assign_entries_plain[OF assms(4)]) simp
  then have e2: "assign_entries ?t (own_entries ?h3 v) (?h3, ?P) =
              (Normal, ?h @ merged ?h ?old v # ?rest, ?P)"
    by (simp only: ev merged_def fetch_end list_update_length)
  have asg: "assign_sources ?t [?src, v] (?h2, ?P) = (Normal, ?h @ merged ?h ?old v # ?rest, ?P)"
    using e1 e2 by (simp only: assign_sources_step fst_conv h3 prod.case completion.case assign_sources.simps(1))
  show ?thesis
  proof (cases "truthy ?old")
    case True
    then show ?thesis
      using asg
      by (simp add: setState_run_def new_literal_def set_store_def Object_assign_run_def Let_def
            machine_of_def emit_run_observes[OF assms(1)] diff_loop_run_plain[OF assms(1)]
            setState_def setState_emit_eq[OF assms(2,3)] setState_diff_def
            own_entries_append[OF assms(2)] Object_keys_def emit_def deliveries_def
            del: assign_sources.simps split: sum.splits)
  next
    case False
    then show ?thesis
      using asg
      by (simp add: setState_run_def new_literal_def set_store_def Object_assign_run_def Let_def
            machine_of_def emit_run_observes[OF assms(1)] diff_loop_run_plain[OF assms(1)]
            setState_def setState_emit_eq[OF assms(2,3)] setState_diff_def
            own_entries_append[OF assms(2)] Object_keys_def emit_def deliveries_def
            del: assign_sources.simps split: sum.splits)
  qed
qed

lemma state_run_plain:
  assumes "val_ok (heap w) (stored w this)"
    and "''__proto__'' \<notin> fst ` set (own_entries (heap w) (stored w this))"
  shows "state_run this (machine_of w) = (Inr (fst (state this w)), machine_of (snd (state this w)))"
proof (cases "truthy (stored w this)")
  case False
  then show ?thesis
    by (simp add: state_run_def state_eq[OF assms(1)] machine_of_def)
next
  case True
  let ?h = "heap w"
  let ?P = "\<lambda>a::nat. ObjectPrototype"
  have e: "own_entries (?h @ [[]]) (stored w this) = own_entries ?h (stored w this)"
    by (rule own_entries_append[OF assms(1)])
  have "assign_entries (length ?h) (own_entries (?h @ [[]]) (stored w this)) (?h @ [[]], ?P) =
          (Normal, ?h @ [put_all [] (own_entries ?h (stored w this))], ?P)"
    using assign_entries_plain[of "own_entries (?h @ [[]]) (stored w this)" "length ?h" "?h @ [[]]" ?P]
      assms(2) by (simp add: e)
  then have "assign_sources (length ?h) [stored w this] (?h @ [[]], ?P) =
          (Normal, ?h @ [put_all [] (own_entries ?h (stored w this))], ?P)"
    by (simp add: assign_sources_step del: assign_sources.simps(2))
  then show ?thesis
    using True
    by (simp add: state_run_def state_eq[OF assms(1)] machine_of_def new_literal_def
          set_store_def Object_assign_run_def Let_def del: assign_sources.simps)
qed

text \<open>
  Where every prototype is an older object, which is how the class leaves the store (it
  sets the prototype of an object only while the object is new), the steps allowed are
  enough to reach the end of every chain.
\<close>

lemma chain_end_older:
  "\<forall>a p. P a = Object p \<longrightarrow> p < a \<Longrightarrow> (\<forall>a. q = Object a \<longrightarrow> a < n) \<Longrightarrow>
   chain_end P n q \<in> {ObjectPrototype, NoPrototype}"
proof (induction P n q rule: chain_end.induct)
  case (4 P n a)
  have "b < n" if "P a = Object b" for b
  proof -
    have "b < a"
      using "4.prems"(1) that by blast
    moreover have "a < Suc n"
      using "4.prems"(2) by simp
    ultimately show ?thesis
      by simp
  qed
  then show ?case
    using "4.IH" "4.prems"(1) by simp
qed simp_all

section \<open>Running the methods with listeners\<close>








section \<open>The claims\<close>

text \<open>
  C1. The claim: \<^verbatim>\<open>update\<close> raises a \<^verbatim>\<open>change\<close> notification, carrying the new and the old
  value, for exactly the fields of the update whose value differs strictly from the old
  one; from \<^verbatim>\<open>{a: 1, b: 2}\<close> the update \<^verbatim>\<open>{b: 3}\<close> delivers one \<^verbatim>\<open>change\<close> call with \<^verbatim>\<open>(3, 2)\<close>.
  The code does not: \<^verbatim>\<open>for (const key in Object.keys(value))\<close> visits the indices of the
  array of names, so the loop compares the fields named \<^verbatim>\<open>"0"\<close>, \<^verbatim>\<open>"1"\<close>, ... On that very
  input \<^verbatim>\<open>setState\<close> returns normally, the new snapshot is \<^verbatim>\<open>{a: 1, b: 3}\<close>, and the only
  listener invoked is the one on \<^verbatim>\<open>statechange\<close>: the listener registered on \<^verbatim>\<open>change\<close> is
  never called.
\<close>

theorem setState_change_lost:
  "(case setState 0 (Ref 1) world_ab of (c, w') \<Rightarrow>
      c = Normal \<and>
      listeners (emitters w' ! 0) = [(''statechange'', 7), (''change'', 8)] \<and>
      fetch (heap w') 0 = [(''a'', Num 1), (''b'', Num 2)] \<and>
      stored w' 0 = Ref 3 \<and>
      fetch (heap w') 3 = [(''a'', Num 1), (''b'', Num 3)] \<and>
      calls w' = [\<lparr>receiver = 0, listener = 7, event = ''statechange'',
                    payload = [Ref 3, Ref 0]\<rparr>])"
  by (simp add: world_ab_eq run_defs)








text \<open>
  C5. The claim: on an instance without a snapshot, \<^verbatim>\<open>update\<close> with any mapping completes
  without an error. The code does not: the merge guards the absent snapshot with
  \<^verbatim>\<open>oldState || {}\<close>, the loop reads \<^verbatim>\<open>oldState[key]\<close> unguarded. On an instance of the base
  class the update \<^verbatim>\<open>{a: 1}\<close> raises a TypeError, after the snapshot \<^verbatim>\<open>{a: 1}\<close> was stored
  and the \<^verbatim>\<open>statechange\<close> listener was called.
\<close>

theorem setState_absent_throws:
  "(case setState 0 (Ref 0) world_base of (c, w') \<Rightarrow>
      stored world_base 0 = Undefined \<and>
      c = Throw TypeError \<and>
      stored w' 0 = Ref 1 \<and>
      fetch (heap w') 1 = [(''a'', Num 1)] \<and>
      calls w' = [\<lparr>receiver = 0, listener = 7, event = ''statechange'',
                    payload = [Ref 1, Undefined]\<rparr>])"
  by (simp add: world_base_eq run_defs)





text \<open>
  C8. The constructor gives the new instance the identity \<^verbatim>\<open>PrivateStates.id + 1\<close>, which is
  greater than the identity of every instance constructed before; the identities of
  those stay as they were, and the initial state is stored under the new identity. No
  later update, read or subscription changes the identity of any instance.
\<close>

theorem constructor_identity:
  assumes "wf_world w"
  shows "case constructor i w of (this, w') \<Rightarrow>
           this = length (emitters w) \<and> length (emitters w') = Suc (length (emitters w)) \<and>
           ident (emitters w' ! this) = ps_id w + 1 \<and> ps_id w' = ps_id w + 1 \<and>
           (\<forall>old < length (emitters w).
              ident (emitters w' ! old) = ident (emitters w ! old) \<and>
              ident (emitters w' ! old) < ident (emitters w' ! this)) \<and>
           stored w' this = i \<and>
           (\<forall>t v. map ident (emitters (snd (setState t v w'))) = map ident (emitters w')) \<and>
           (\<forall>t. map ident (emitters (snd (state t w'))) = map ident (emitters w')) \<and>
           (\<forall>t name l. map ident (emitters (on t name l w')) = map ident (emitters w'))"
proof -
  have le: "ident (emitters w ! old) \<le> ps_id w" if "old < length (emitters w)" for old
    using assms that by (simp add: wf_world_def list_all_length)
  have "ident (emitters w ! old) < Suc (ps_id w)" if "old < length (emitters w)" for old
    using le[OF that] by simp
  then show ?thesis
    by (simp add: constructor_def Let_def stored_def nth_append setState_idents state_idents
          on_idents)
qed

theorem constructor_identity_witness:
  "wf_world world_base \<and> map ident (emitters world_base) = [1] \<and>
   (case constructor Undefined world_base of (this, w') \<Rightarrow>
      this = 1 \<and> map ident (emitters w') = [1, 2] \<and>
      ident (emitters w' ! this) = ps_id world_base + 1 \<and>
      (\<forall>old < length (emitters world_base).
         ident (emitters w' ! old) = ident (emitters world_base ! old) \<and>
         ident (emitters w' ! old) < ident (emitters w' ! this)) \<and>
      map ident (emitters (snd (setState 0 (Ref 0) w'))) = [1, 2])"
  using constructor_identity[of world_base Undefined]
  by (simp add: world_base_eq run_defs wf_defs)






end
